theory Spec2Isabelle
  imports Main "HOL-Library.Word" "HOL-Library.Sublist"
begin

section \<open>Strings of the host language\<close>

text \<open>
  A string of the program is a sequence of UTF-16 code units. \<open>ascii\<close> writes an ASCII
  literal of the source as such a sequence.
\<close>

type_synonym cu = "16 word"
type_synonym jsstring = "cu list"

definition ascii :: "string \<Rightarrow> jsstring" where
  "ascii s = map (\<lambda>c. of_char c) s"

text \<open>
  \<^verbatim>\<open>String.prototype.trim\<close> strips the code points of the productions WhiteSpace and
  LineTerminator from both ends: TAB, LF, VT, FF, CR, SP, NBSP, the category Zs
  (U+1680, U+2000 to U+200A, U+202F, U+205F, U+3000), LS, PS and the BOM U+FEFF.
  All of them lie in the basic plane, so the test is one code unit at a time.
\<close>

definition is_ws :: "cu \<Rightarrow> bool" where
  "is_ws c \<longleftrightarrow>
     c = 0x09 \<or> c = 0x0A \<or> c = 0x0B \<or> c = 0x0C \<or> c = 0x0D \<or> c = 0x20 \<or> c = 0xA0 \<or>
     c = 0x1680 \<or> (0x2000 \<le> c \<and> c \<le> 0x200A) \<or> c = 0x2028 \<or> c = 0x2029 \<or>
     c = 0x202F \<or> c = 0x205F \<or> c = 0x3000 \<or> c = 0xFEFF"

definition trim :: "jsstring \<Rightarrow> jsstring" where
  "trim s = rev (dropWhile is_ws (rev (dropWhile is_ws s)))"

text \<open>
  The decimal digits of a non-negative integer, as the template literal prints the
  length of an array: no sign, no leading zero, \<open>0\<close> for zero.
\<close>

definition digit :: "nat \<Rightarrow> cu" where
  "digit d = 0x30 + of_nat d"

function decimal :: "nat \<Rightarrow> jsstring" where
  "decimal n = (if n < 10 then [digit n] else decimal (n div 10) @ [digit (n mod 10)])"
  by pat_completeness auto
termination
  by (relation "measure (\<lambda>n. n)") auto

declare decimal.simps [simp del]

text \<open>Reading a digit string back, to state what \<open>decimal\<close> prints.\<close>

definition decimal_value :: "jsstring \<Rightarrow> nat" where
  "decimal_value s = foldl (\<lambda>acc c. 10 * acc + unat (c - 0x30)) 0 s"

section \<open>Data model\<close>

text \<open>\<^verbatim>\<open>interface Todo { id: string; title: string; completed: boolean; }\<close>\<close>

record Todo =
  id' :: jsstring
  title :: jsstring
  completed :: bool

text \<open>\<^verbatim>\<open>currentFilter: 'all' | 'active' | 'completed'\<close>\<close>

datatype Filter = Filter_all | Filter_active | Filter_completed

section \<open>\<^verbatim>\<open>JSON.stringify\<close> on a \<^verbatim>\<open>Todo[]\<close>\<close>

text \<open>
  QuoteJSONString walks the code points of the string. The seven characters of its
  table get their two-character escape; any other control character below U+0020 and
  any surrogate that is not part of a pair is written \<^verbatim>\<open>\uXXXX\<close> with lower-case
  hexadecimal digits; everything else, a surrogate pair included, is copied.
\<close>

definition is_lead :: "cu \<Rightarrow> bool" where
  "is_lead c \<longleftrightarrow> 0xD800 \<le> c \<and> c \<le> 0xDBFF"

definition is_trail :: "cu \<Rightarrow> bool" where
  "is_trail c \<longleftrightarrow> 0xDC00 \<le> c \<and> c \<le> 0xDFFF"

definition hexdigit :: "nat \<Rightarrow> cu" where
  "hexdigit n = (if n < 10 then 0x30 + of_nat n else 0x57 + of_nat n)"

definition unicode_escape :: "cu \<Rightarrow> jsstring" where
  "unicode_escape c =
     [0x5C, 0x75,
      hexdigit (unat c div 4096 mod 16), hexdigit (unat c div 256 mod 16),
      hexdigit (unat c div 16 mod 16), hexdigit (unat c mod 16)]"

definition quote_unit :: "cu \<Rightarrow> jsstring" where
  "quote_unit c =
     (if c = 0x08 then [0x5C, 0x62]
      else if c = 0x09 then [0x5C, 0x74]
      else if c = 0x0A then [0x5C, 0x6E]
      else if c = 0x0C then [0x5C, 0x66]
      else if c = 0x0D then [0x5C, 0x72]
      else if c = 0x22 then [0x5C, 0x22]
      else if c = 0x5C then [0x5C, 0x5C]
      else if c < 0x20 \<or> is_lead c \<or> is_trail c then unicode_escape c
      else [c])"

fun quote_body :: "jsstring \<Rightarrow> jsstring" where
  "quote_body [] = []"
| "quote_body [c] = quote_unit c"
| "quote_body (c # d # cs) =
     (if is_lead c \<and> is_trail d then c # d # quote_body cs
      else quote_unit c @ quote_body (d # cs))"

definition QuoteJSONString :: "jsstring \<Rightarrow> jsstring" where
  "QuoteJSONString s = [0x22] @ quote_body s @ [0x22]"

text \<open>
  A \<^verbatim>\<open>Todo\<close> is serialised with its properties in creation order, which the object
  literal of \<^verbatim>\<open>addTodo\<close> fixes and the spread copies keep: id, title, completed.
  No white space is inserted (no \<^verbatim>\<open>space\<close> argument is given).
\<close>

definition stringify_Todo :: "Todo \<Rightarrow> jsstring" where
  \<open>stringify_Todo t =
     ascii ''{"id":'' @ QuoteJSONString (id' t) @
     ascii '',"title":'' @ QuoteJSONString (title t) @
     ascii '',"completed":'' @ (if completed t then ascii ''true'' else ascii ''false'') @
     ascii ''}''\<close>

fun stringify_elements :: "Todo list \<Rightarrow> jsstring" where
  "stringify_elements [] = []"
| "stringify_elements [t] = stringify_Todo t"
| "stringify_elements (t # ts) = stringify_Todo t @ ascii '','' @ stringify_elements ts"

definition JSON_stringify :: "Todo list \<Rightarrow> jsstring" where
  "JSON_stringify ts = ascii ''['' @ stringify_elements ts @ ascii '']''"

section \<open>Application state\<close>

text \<open>
  The module-level variables \<^verbatim>\<open>todos\<close> and \<^verbatim>\<open>currentFilter\<close>, the item of
  \<^verbatim>\<open>localStorage\<close> under \<^verbatim>\<open>STORAGE_KEY\<close> (\<open>None\<close> when the key is absent), what
  \<^verbatim>\<open>render\<close> left in the document, and the trace of the calls that reach outside the
  module, oldest first. The elements \<^verbatim>\<open>render\<close> looks up are taken to exist, as the
  non-null assertions of the source do, and \<^verbatim>\<open>setItem\<close> is taken to succeed.
\<close>

record Li =
  dataset_id :: jsstring
  checkbox_checked :: bool
  label_className :: jsstring
  label_textContent :: jsstring

record Dom =
  main_display :: jsstring
  todoList :: "Li list"
  todoCount :: jsstring
  footer_display :: jsstring
  toggleAll_checked :: bool

datatype Effect = SetItem jsstring | Render

record App =
  todos :: "Todo list"
  currentFilter :: Filter
  localStorage :: "jsstring option"
  dom :: Dom
  effects :: "Effect list"

definition saveTodos :: "App \<Rightarrow> App" where
  "saveTodos st =
     st\<lparr>localStorage := Some (JSON_stringify (todos st)),
        effects := effects st @ [SetItem (JSON_stringify (todos st))]\<rparr>"

text \<open>The local constants \<^verbatim>\<open>filtered\<close> and \<^verbatim>\<open>remaining\<close> of \<^verbatim>\<open>render\<close>.\<close>

definition filtered :: "App \<Rightarrow> Todo list" where
  "filtered st =
     filter (\<lambda>t. if currentFilter st = Filter_active then \<not> completed t
                 else if currentFilter st = Filter_completed then completed t
                 else True) (todos st)"

definition remaining :: "App \<Rightarrow> nat" where
  "remaining st = length (filter (\<lambda>t. \<not> completed t) (todos st))"

definition li :: "Todo \<Rightarrow> Li" where
  "li t =
     \<lparr>dataset_id = id' t,
      checkbox_checked = completed t,
      label_className = ascii ''label'' @ (if completed t then ascii '' completed'' else []),
      label_textContent = title t\<rparr>"

definition render :: "App \<Rightarrow> App" where
  "render st =
     st\<lparr>dom :=
          \<lparr>main_display = (if length (todos st) \<noteq> 0 then ascii ''block'' else ascii ''none''),
           todoList = map li (filtered st),
           todoCount =
             decimal (remaining st) @ ascii '' item'' @
             (if remaining st \<noteq> 1 then ascii ''s'' else []) @ ascii '' left'',
           footer_display = (if length (todos st) \<noteq> 0 then ascii ''flex'' else ascii ''none''),
           toggleAll_checked = (length (todos st) > 0 \<and> list_all completed (todos st))\<rparr>,
        effects := effects st @ [Render]\<rparr>"

text \<open>
  \<^verbatim>\<open>uid()\<close> draws from \<^verbatim>\<open>Math.random\<close>; the string it returns is the argument \<open>u\<close>.
  The task is built, and the id drawn, before the title is tested.
\<close>

definition addTodo :: "jsstring \<Rightarrow> jsstring \<Rightarrow> App \<Rightarrow> App" where
  "addTodo u rawTitle st =
     (let t = \<lparr>id' = u, title = trim rawTitle, completed = False\<rparr>
      in if title t = [] then st
         else render (saveTodos (st\<lparr>todos := t # todos st\<rparr>)))"

definition removeTodo :: "jsstring \<Rightarrow> App \<Rightarrow> App" where
  "removeTodo i st =
     render (saveTodos (st\<lparr>todos := filter (\<lambda>t. id' t \<noteq> i) (todos st)\<rparr>))"

definition toggleTodo :: "jsstring \<Rightarrow> App \<Rightarrow> App" where
  "toggleTodo i st =
     render (saveTodos
       (st\<lparr>todos := map (\<lambda>t. if id' t = i then t\<lparr>completed := \<not> completed t\<rparr> else t)
                        (todos st)\<rparr>))"

definition updateTodoTitle :: "jsstring \<Rightarrow> jsstring \<Rightarrow> App \<Rightarrow> App" where
  "updateTodoTitle i rawTitle st =
     render (saveTodos
       (st\<lparr>todos := map (\<lambda>t. if id' t = i then t\<lparr>title := trim rawTitle\<rparr> else t)
                        (todos st)\<rparr>))"

text \<open>
  \<^verbatim>\<open>commit\<close> is the closure of \<^verbatim>\<open>startEdit(li, todo)\<close>: \<open>todo\<close> is the task captured
  when the edit began and \<open>draft\<close> the value of the edit field when it fires.
\<close>

definition commit :: "Todo \<Rightarrow> jsstring \<Rightarrow> App \<Rightarrow> App" where
  "commit todo draft st =
     (let val = trim draft
      in if val \<noteq> [] then updateTodoTitle (id' todo) val st
         else removeTodo (id' todo) st)"

section \<open>\<^verbatim>\<open>JSON.parse\<close>\<close>

text \<open>
  The values \<^verbatim>\<open>JSON.parse\<close> can return. A number keeps the literal it was written
  with (its value as a double is used nowhere here); an object keeps its members in
  the order of the text, and a property is read from the last member with that name,
  as a later duplicate overwrites an earlier one.
\<close>

datatype json =
    JNull
  | JBool bool
  | JNumber jsstring
  | JString jsstring
  | JArray "json list"
  | JObject "(jsstring \<times> json) list"

text \<open>
  \<open>SyntaxError\<close> is the exception \<^verbatim>\<open>JSON.parse\<close> throws. \<open>OutOfFuel\<close> is the
  recursion bound of the model below running out; \<open>JSON_parse\<close> gives enough for it
  never to happen (\<open>JSON_parse_never_OutOfFuel\<close>).
\<close>

datatype error = SyntaxError | OutOfFuel

text \<open>The grammar's white space: TAB, LF, CR and SP.\<close>

definition is_json_ws :: "cu \<Rightarrow> bool" where
  "is_json_ws c \<longleftrightarrow> c = 0x09 \<or> c = 0x0A \<or> c = 0x0D \<or> c = 0x20"

definition skip_ws :: "jsstring \<Rightarrow> jsstring" where
  "skip_ws s = dropWhile is_json_ws s"

text \<open>
  A string runs to the next unescaped quote. A backslash is followed by one of the
  characters quote, backslash, slash, b, f, n, r, t, or by u and four hexadecimal
  digits of either case; a code unit below U+0020 may not stand unescaped.
  \<open>parse_chars\<close> reads from behind the opening quote and returns the decoded string
  and the text behind the closing quote.
\<close>

definition hexval :: "cu \<Rightarrow> nat option" where
  "hexval c =
     (if 0x30 \<le> c \<and> c \<le> 0x39 then Some (unat c - 0x30)
      else if 0x41 \<le> c \<and> c \<le> 0x46 then Some (unat c - 0x37)
      else if 0x61 \<le> c \<and> c \<le> 0x66 then Some (unat c - 0x57)
      else None)"

definition hex4 :: "cu \<Rightarrow> cu \<Rightarrow> cu \<Rightarrow> cu \<Rightarrow> cu option" where
  "hex4 h1 h2 h3 h4 =
     (case (hexval h1, hexval h2, hexval h3, hexval h4) of
        (Some a, Some b, Some c, Some d) \<Rightarrow> Some (of_nat (((a * 16 + b) * 16 + c) * 16 + d))
      | _ \<Rightarrow> None)"

definition escape_char :: "cu \<Rightarrow> cu option" where
  "escape_char e =
     (if e = 0x22 then Some 0x22
      else if e = 0x5C then Some 0x5C
      else if e = 0x2F then Some 0x2F
      else if e = 0x62 then Some 0x08
      else if e = 0x66 then Some 0x0C
      else if e = 0x6E then Some 0x0A
      else if e = 0x72 then Some 0x0D
      else if e = 0x74 then Some 0x09
      else None)"

definition cons_char :: "cu \<Rightarrow> (jsstring \<times> jsstring) option \<Rightarrow> (jsstring \<times> jsstring) option" where
  "cons_char c res = (case res of None \<Rightarrow> None | Some (s, r) \<Rightarrow> Some (c # s, r))"

fun parse_chars :: "jsstring \<Rightarrow> (jsstring \<times> jsstring) option" where
  "parse_chars [] = None"
| "parse_chars (c # cs) =
     (if c = 0x22 then Some ([], cs)
      else if c = 0x5C then
        (case cs of
           [] \<Rightarrow> None
         | e # cs1 \<Rightarrow>
             if e = 0x75 then
               (case cs1 of
                  h1 # h2 # h3 # h4 # cs2 \<Rightarrow>
                    (case hex4 h1 h2 h3 h4 of
                       None \<Rightarrow> None
                     | Some u \<Rightarrow> cons_char u (parse_chars cs2))
                | _ \<Rightarrow> None)
             else
               (case escape_char e of
                  None \<Rightarrow> None
                | Some u \<Rightarrow> cons_char u (parse_chars cs1)))
      else if c < 0x20 then None
      else cons_char c (parse_chars cs))"

text \<open>
  A number is an optional minus, an integer part (a single \<open>0\<close>, or digits that do
  not start with \<open>0\<close>), an optional fraction (a point and one or more digits) and an
  optional exponent (\<^verbatim>\<open>e\<close> or \<^verbatim>\<open>E\<close>, an optional sign, one or more digits).
\<close>

definition is_digit :: "cu \<Rightarrow> bool" where
  "is_digit c \<longleftrightarrow> 0x30 \<le> c \<and> c \<le> 0x39"

definition digits1 :: "jsstring \<Rightarrow> (jsstring \<times> jsstring) option" where
  "digits1 s = (if takeWhile is_digit s = [] then None
                else Some (takeWhile is_digit s, dropWhile is_digit s))"

definition parse_int :: "jsstring \<Rightarrow> (jsstring \<times> jsstring) option" where
  "parse_int s =
     (case s of
        [] \<Rightarrow> None
      | d # ds \<Rightarrow> if d = 0x30 then Some ([d], ds) else digits1 s)"

definition parse_frac :: "jsstring \<Rightarrow> (jsstring \<times> jsstring) option" where
  "parse_frac s =
     (case s of
        [] \<Rightarrow> Some ([], s)
      | c # cs \<Rightarrow>
          if c = 0x2E then
            (case digits1 cs of None \<Rightarrow> None | Some (ds, r) \<Rightarrow> Some (c # ds, r))
          else Some ([], s))"

definition parse_exp :: "jsstring \<Rightarrow> (jsstring \<times> jsstring) option" where
  "parse_exp s =
     (case s of
        [] \<Rightarrow> Some ([], s)
      | c # cs \<Rightarrow>
          if c = 0x65 \<or> c = 0x45 then
            (case cs of
               [] \<Rightarrow> None
             | g # gs \<Rightarrow>
                 if g = 0x2B \<or> g = 0x2D then
                   (case digits1 gs of None \<Rightarrow> None | Some (ds, r) \<Rightarrow> Some (c # g # ds, r))
                 else
                   (case digits1 cs of None \<Rightarrow> None | Some (ds, r) \<Rightarrow> Some (c # ds, r)))
          else Some ([], s))"

definition parse_number :: "jsstring \<Rightarrow> (jsstring \<times> jsstring) option" where
  "parse_number s =
     (let (sign, s1) = (case s of [] \<Rightarrow> ([], s) | c # cs \<Rightarrow> if c = 0x2D then ([c], cs) else ([], s))
      in case parse_int s1 of
           None \<Rightarrow> None
         | Some (i, s2) \<Rightarrow>
             (case parse_frac s2 of
                None \<Rightarrow> None
              | Some (f, s3) \<Rightarrow>
                  (case parse_exp s3 of
                     None \<Rightarrow> None
                   | Some (e, s4) \<Rightarrow> Some (sign @ i @ f @ e, s4))))"

text \<open>The rest of the text behind a given prefix, for the three literal names.\<close>

fun strip_prefix :: "jsstring \<Rightarrow> jsstring \<Rightarrow> jsstring option" where
  "strip_prefix [] s = Some s"
| "strip_prefix (p # ps) [] = None"
| "strip_prefix (p # ps) (c # cs) = (if p = c then strip_prefix ps cs else None)"

text \<open>
  Values, the elements of an array behind its opening bracket, and the members of an
  object behind its opening brace. Each returns what it read and the text left. The
  first argument bounds the depth of the recursion and goes down by one at every call.
\<close>

fun parse_value :: "nat \<Rightarrow> jsstring \<Rightarrow> error + (json \<times> jsstring)"
  and parse_elements :: "nat \<Rightarrow> jsstring \<Rightarrow> error + (json list \<times> jsstring)"
  and parse_members :: "nat \<Rightarrow> jsstring \<Rightarrow> error + ((jsstring \<times> json) list \<times> jsstring)"
where
  "parse_value 0 s = Inl OutOfFuel"
| "parse_value (Suc n) s =
     (case skip_ws s of
        [] \<Rightarrow> Inl SyntaxError
      | c # cs \<Rightarrow>
          if c = 0x5B then
            (case skip_ws cs of
               [] \<Rightarrow> Inl SyntaxError
             | d # ds \<Rightarrow>
                 if d = 0x5D then Inr (JArray [], ds)
                 else (case parse_elements n cs of
                         Inl e \<Rightarrow> Inl e
                       | Inr (vs, r) \<Rightarrow> Inr (JArray vs, r)))
          else if c = 0x7B then
            (case skip_ws cs of
               [] \<Rightarrow> Inl SyntaxError
             | d # ds \<Rightarrow>
                 if d = 0x7D then Inr (JObject [], ds)
                 else (case parse_members n cs of
                         Inl e \<Rightarrow> Inl e
                       | Inr (ms, r) \<Rightarrow> Inr (JObject ms, r)))
          else if c = 0x22 then
            (case parse_chars cs of
               None \<Rightarrow> Inl SyntaxError
             | Some (str, r) \<Rightarrow> Inr (JString str, r))
          else if c = 0x74 then
            (case strip_prefix (ascii ''rue'') cs of
               None \<Rightarrow> Inl SyntaxError
             | Some r \<Rightarrow> Inr (JBool True, r))
          else if c = 0x66 then
            (case strip_prefix (ascii ''alse'') cs of
               None \<Rightarrow> Inl SyntaxError
             | Some r \<Rightarrow> Inr (JBool False, r))
          else if c = 0x6E then
            (case strip_prefix (ascii ''ull'') cs of
               None \<Rightarrow> Inl SyntaxError
             | Some r \<Rightarrow> Inr (JNull, r))
          else
            (case parse_number (c # cs) of
               None \<Rightarrow> Inl SyntaxError
             | Some (num, r) \<Rightarrow> Inr (JNumber num, r)))"
| "parse_elements 0 s = Inl OutOfFuel"
| "parse_elements (Suc n) s =
     (case parse_value n s of
        Inl e \<Rightarrow> Inl e
      | Inr (v, r) \<Rightarrow>
          (case skip_ws r of
             [] \<Rightarrow> Inl SyntaxError
           | c # cs \<Rightarrow>
               if c = 0x5D then Inr ([v], cs)
               else if c = 0x2C then
                 (case parse_elements n cs of
                    Inl e \<Rightarrow> Inl e
                  | Inr (vs, r') \<Rightarrow> Inr (v # vs, r'))
               else Inl SyntaxError))"
| "parse_members 0 s = Inl OutOfFuel"
| "parse_members (Suc n) s =
     (case skip_ws s of
        [] \<Rightarrow> Inl SyntaxError
      | q # s1 \<Rightarrow>
          if q \<noteq> 0x22 then Inl SyntaxError
          else
            (case parse_chars s1 of
               None \<Rightarrow> Inl SyntaxError
             | Some (k, s2) \<Rightarrow>
                 (case skip_ws s2 of
                    [] \<Rightarrow> Inl SyntaxError
                  | c # s3 \<Rightarrow>
                      if c \<noteq> 0x3A then Inl SyntaxError
                      else
                        (case parse_value n s3 of
                           Inl e \<Rightarrow> Inl e
                         | Inr (v, s4) \<Rightarrow>
                             (case skip_ws s4 of
                                [] \<Rightarrow> Inl SyntaxError
                              | d # s5 \<Rightarrow>
                                  if d = 0x7D then Inr ([(k, v)], s5)
                                  else if d = 0x2C then
                                    (case parse_members n s5 of
                                       Inl e \<Rightarrow> Inl e
                                     | Inr (ms, r) \<Rightarrow> Inr ((k, v) # ms, r))
                                  else Inl SyntaxError)))))"

text \<open>
  The whole text must be one value with nothing but white space around it.
\<close>

definition JSON_parse :: "jsstring \<Rightarrow> error + json" where
  "JSON_parse s =
     (case parse_value (2 * length s + 1) s of
        Inl e \<Rightarrow> Inl e
      | Inr (v, r) \<Rightarrow> if skip_ws r = [] then Inr v else Inl SyntaxError)"

section \<open>Loading\<close>

text \<open>
  The value that a \<^verbatim>\<open>Todo\<close> of the program is at run time, and the reading of a
  value as a \<^verbatim>\<open>Todo[]\<close>: an array of objects each with a string \<^verbatim>\<open>id\<close>, a string
  \<^verbatim>\<open>title\<close> and a boolean \<^verbatim>\<open>completed\<close>.
\<close>

definition value_of_Todo :: "Todo \<Rightarrow> json" where
  "value_of_Todo t =
     JObject [(ascii ''id'', JString (id' t)),
              (ascii ''title'', JString (title t)),
              (ascii ''completed'', JBool (completed t))]"

definition value_of_Todos :: "Todo list \<Rightarrow> json" where
  "value_of_Todos ts = JArray (map value_of_Todo ts)"

definition get_prop :: "(jsstring \<times> json) list \<Rightarrow> jsstring \<Rightarrow> json option" where
  "get_prop ms k = map_of (rev ms) k"

definition as_Todo :: "json \<Rightarrow> Todo option" where
  "as_Todo v =
     (case v of
        JObject ms \<Rightarrow>
          (case (get_prop ms (ascii ''id''), get_prop ms (ascii ''title''),
                 get_prop ms (ascii ''completed'')) of
             (Some (JString i), Some (JString t), Some (JBool c)) \<Rightarrow>
               Some \<lparr>id' = i, title = t, completed = c\<rparr>
           | _ \<Rightarrow> None)
      | _ \<Rightarrow> None)"

definition as_Todos :: "json \<Rightarrow> Todo list option" where
  "as_Todos v = (case v of JArray vs \<Rightarrow> those (map as_Todo vs) | _ \<Rightarrow> None)"

text \<open>
  \<^verbatim>\<open>loadTodos\<close> gets the item stored under \<^verbatim>\<open>STORAGE_KEY\<close>, here its argument
  (\<open>None\<close> when the key is absent). It returns the value it hands to \<^verbatim>\<open>todos\<close>, which
  the cast \<^verbatim>\<open>as Todo[]\<close> does not inspect, and what it wrote with \<^verbatim>\<open>console.log\<close>.
\<close>

definition loadTodos :: "jsstring option \<Rightarrow> json \<times> error list" where
  "loadTodos raw =
     (case raw of
        None \<Rightarrow> (JArray [], [])
      | Some r \<Rightarrow>
          if r = [] then (JArray [], [])
          else (case JSON_parse r of
                  Inl e \<Rightarrow> (JArray [], [e])
                | Inr parsed \<Rightarrow> (parsed, [])))"

text \<open>The stored item is the text of a well-formed collection.\<close>

definition stored_well_formed :: "jsstring option \<Rightarrow> bool" where
  "stored_well_formed raw =
     (case raw of
        None \<Rightarrow> False
      | Some r \<Rightarrow> (case JSON_parse r of Inl e \<Rightarrow> False | Inr v \<Rightarrow> as_Todos v \<noteq> None))"

text \<open>
  The invariant of the data model on titles: no task of the collection has a title that
  is empty or consists of white space only.
\<close>

definition titles_nonblank :: "Todo list \<Rightarrow> bool" where
  "titles_nonblank ts = list_all (\<lambda>t. trim (title t) \<noteq> []) ts"

section \<open>An example state\<close>

text \<open>Two tasks, one of them done, nothing stored yet and nothing rendered.\<close>

definition st0 :: App where
  "st0 =
     \<lparr>todos = [\<lparr>id' = ascii ''a1'', title = ascii ''Buy milk'', completed = False\<rparr>,
               \<lparr>id' = ascii ''b2'', title = ascii ''Walk dog'', completed = True\<rparr>],
      currentFilter = Filter_all,
      localStorage = None,
      dom = \<lparr>main_display = [], todoList = [], todoCount = [], footer_display = [],
             toggleAll_checked = False\<rparr>,
      effects = []\<rparr>"


section \<open>Trimming\<close>

lemma dropWhile_fix: "xs = [] \<or> \<not> P (hd xs) \<Longrightarrow> dropWhile P xs = xs"
  by (cases xs) auto

lemma trim_hd: "trim s \<noteq> [] \<Longrightarrow> \<not> is_ws (hd (trim s))"
proof -
  assume ne: "trim s \<noteq> []"
  define a where "a = dropWhile is_ws s"
  define b where "b = dropWhile is_ws (rev a)"
  have t: "trim s = rev b" by (simp add: trim_def a_def b_def)
  have "rev a = takeWhile is_ws (rev a) @ b" by (simp add: b_def)
  then have "a = rev b @ rev (takeWhile is_ws (rev a))"
    by (metis rev_append rev_rev_ident)
  with ne t have "hd a = hd (rev b)" and "a \<noteq> []" by (metis hd_append2, auto)
  moreover have "\<not> is_ws (hd a)" using \<open>a \<noteq> []\<close> unfolding a_def by (rule hd_dropWhile)
  ultimately show ?thesis using t by simp
qed

lemma trim_last: "trim s \<noteq> [] \<Longrightarrow> \<not> is_ws (last (trim s))"
proof -
  assume ne: "trim s \<noteq> []"
  define b where "b = dropWhile is_ws (rev (dropWhile is_ws s))"
  have t: "trim s = rev b" by (simp add: trim_def b_def)
  with ne have "b \<noteq> []" by simp
  then have "\<not> is_ws (hd b)" unfolding b_def by (rule hd_dropWhile)
  then show ?thesis using t \<open>b \<noteq> []\<close> by (simp add: last_rev)
qed

lemma trim_idem: "trim (trim s) = trim s"
proof (cases "trim s = []")
  case True
  have "trim [] = []" by (simp add: trim_def)
  with True show ?thesis by simp
next
  case False
  have 1: "dropWhile is_ws (trim s) = trim s"
    using trim_hd [OF False] by (simp add: dropWhile_fix)
  have "rev (trim s) \<noteq> []" using False by simp
  moreover have "hd (rev (trim s)) = last (trim s)" using False by (simp add: hd_rev)
  ultimately have 2: "dropWhile is_ws (rev (trim s)) = rev (trim s)"
    using trim_last [OF False] by (simp add: dropWhile_fix)
  show ?thesis
    unfolding trim_def [of "trim s"] 1 2 by simp
qed

lemma dropWhile_all_iff: "(\<forall>x\<in>set (dropWhile P s). P x) \<longleftrightarrow> (\<forall>x\<in>set s. P x)"
proof
  assume h: "\<forall>x\<in>set (dropWhile P s). P x"
  have "dropWhile P s = []"
  proof (rule ccontr)
    assume ne: "dropWhile P s \<noteq> []"
    then have "\<not> P (hd (dropWhile P s))" by (rule hd_dropWhile)
    moreover have "hd (dropWhile P s) \<in> set (dropWhile P s)" using ne by simp
    ultimately show False using h by blast
  qed
  then show "\<forall>x\<in>set s. P x" by simp
next
  assume "\<forall>x\<in>set s. P x"
  then show "\<forall>x\<in>set (dropWhile P s). P x" by (meson set_dropWhileD)
qed

lemma trim_blank_iff: "trim s = [] \<longleftrightarrow> list_all is_ws s"
  by (simp add: trim_def list_all_iff dropWhile_all_iff)

lemma trim_decomp:
  "\<exists>pre post. s = pre @ trim s @ post \<and> list_all is_ws pre \<and> list_all is_ws post"
proof -
  define a where "a = dropWhile is_ws s"
  define b where "b = dropWhile is_ws (rev a)"
  have t: "trim s = rev b" by (simp add: trim_def a_def b_def)
  have "rev a = takeWhile is_ws (rev a) @ b" by (simp add: b_def)
  then have a: "a = rev b @ rev (takeWhile is_ws (rev a))"
    by (metis rev_append rev_rev_ident)
  have s: "s = takeWhile is_ws s @ a" by (simp add: a_def)
  have "s = takeWhile is_ws s @ trim s @ rev (takeWhile is_ws (rev a))"
    using s a t by simp
  moreover have "list_all is_ws (takeWhile is_ws s)"
    by (simp add: list_all_iff) (meson set_takeWhileD)
  moreover have "list_all is_ws (rev (takeWhile is_ws (rev a)))"
    by (simp add: list_all_iff) (meson set_takeWhileD)
  ultimately show ?thesis by blast
qed

section \<open>What the operations do to the state\<close>

lemma todos_render [simp]: "todos (render st) = todos st"
  by (simp add: render_def)

lemma todos_saveTodos [simp]: "todos (saveTodos st) = todos st"
  by (simp add: saveTodos_def)

lemma localStorage_render [simp]: "localStorage (render st) = localStorage st"
  by (simp add: render_def)

lemma effects_render [simp]: "effects (render st) = effects st @ [Render]"
  by (simp add: render_def)

lemma localStorage_saveTodos [simp]:
  "localStorage (saveTodos st) = Some (JSON_stringify (todos st))"
  by (simp add: saveTodos_def)

lemma effects_saveTodos [simp]:
  "effects (saveTodos st) = effects st @ [SetItem (JSON_stringify (todos st))]"
  by (simp add: saveTodos_def)

lemma todos_removeTodo:
  "todos (removeTodo i st) = filter (\<lambda>t. id' t \<noteq> i) (todos st)"
  by (simp add: removeTodo_def)

lemma todos_toggleTodo:
  "todos (toggleTodo i st) =
     map (\<lambda>t. if id' t = i then t\<lparr>completed := \<not> completed t\<rparr> else t) (todos st)"
  by (simp add: toggleTodo_def)

lemma todos_updateTodoTitle:
  "todos (updateTodoTitle i r st) =
     map (\<lambda>t. if id' t = i then t\<lparr>title := trim r\<rparr> else t) (todos st)"
  by (simp add: updateTodoTitle_def)

lemma filter_absent: "i \<notin> id' ` set ts \<Longrightarrow> filter (\<lambda>t. id' t \<noteq> i) ts = ts"
  by (induction ts) auto

lemma map_absent: "i \<notin> id' ` set ts \<Longrightarrow> map (\<lambda>t. if id' t = i then f t else t) ts = ts"
  by (induction ts) auto

lemma commit_nonblank:
  "trim draft \<noteq> [] \<Longrightarrow>
   todos (commit todo draft st) =
     map (\<lambda>t. if id' t = id' todo then t\<lparr>title := trim draft\<rparr> else t) (todos st)"
  by (simp add: commit_def Let_def todos_updateTodoTitle trim_idem)

lemma commit_blank:
  "trim draft = [] \<Longrightarrow>
   todos (commit todo draft st) = filter (\<lambda>t. id' t \<noteq> id' todo) (todos st)"
  by (simp add: commit_def Let_def todos_removeTodo)

lemma todos_st0:
  "todos st0 =
     [\<lparr>id' = ascii ''a1'', title = ascii ''Buy milk'', completed = False\<rparr>,
      \<lparr>id' = ascii ''b2'', title = ascii ''Walk dog'', completed = True\<rparr>]"
  by (simp add: st0_def)

lemma titles_nonblank_st0: "titles_nonblank (todos st0)"
  by (simp add: titles_nonblank_def st0_def trim_def ascii_def is_ws_def)

section \<open>Titles on rename (C1)\<close>

text \<open>
  C1, as stated, fails: \<^verbatim>\<open>updateTodoTitle\<close> has no test of the trimmed title. Renaming
  the task \<open>a1\<close> of the example state to three spaces changes the collection and leaves
  that task with the empty title.
\<close>

theorem updateTodoTitle_blank_counterexample:
  "trim (ascii ''   '') = [] \<and>
   ascii ''a1'' \<in> id' ` set (todos st0) \<and>
   todos (updateTodoTitle (ascii ''a1'') (ascii ''   '') st0) =
     [\<lparr>id' = ascii ''a1'', title = [], completed = False\<rparr>,
      \<lparr>id' = ascii ''b2'', title = ascii ''Walk dog'', completed = True\<rparr>] \<and>
   todos (updateTodoTitle (ascii ''a1'') (ascii ''   '') st0) \<noteq> todos st0"
proof -
  have b: "trim (ascii ''   '') = []"
    by (simp add: trim_def ascii_def is_ws_def)
  have u: "todos (updateTodoTitle (ascii ''a1'') (ascii ''   '') st0) =
     [\<lparr>id' = ascii ''a1'', title = [], completed = False\<rparr>,
      \<lparr>id' = ascii ''b2'', title = ascii ''Walk dog'', completed = True\<rparr>]"
    by (simp add: todos_updateTodoTitle st0_def trim_def ascii_def is_ws_def)
  have m: "ascii ''a1'' \<in> id' ` set (todos st0)"
    by (simp add: st0_def)
  have n: "todos (updateTodoTitle (ascii ''a1'') (ascii ''   '') st0) \<noteq> todos st0"
    unfolding u by (simp add: st0_def ascii_def)
  show ?thesis using b u m n by blast
qed

text \<open>
  C1, amended. \<^verbatim>\<open>updateTodoTitle(id, rawTitle)\<close> replaces the title of every task with
  that id by the trimmed \<open>rawTitle\<close>, whatever it trims to, keeps the id and the
  completed flag of those tasks and every other task as they are, and persists the
  result. The blank case is intercepted by its only caller: \<^verbatim>\<open>commit\<close> removes the task
  when the draft trims to nothing, so a commit on a collection without blank titles
  leaves a collection without blank titles.
\<close>

theorem updateTodoTitle_spec:
  "length (todos (updateTodoTitle i rawTitle st)) = length (todos st) \<and>
   (\<forall>k < length (todos st).
      (id' (todos st ! k) = i \<longrightarrow>
         id' (todos (updateTodoTitle i rawTitle st) ! k) = id' (todos st ! k) \<and>
         title (todos (updateTodoTitle i rawTitle st) ! k) = trim rawTitle \<and>
         completed (todos (updateTodoTitle i rawTitle st) ! k) = completed (todos st ! k)) \<and>
      (id' (todos st ! k) \<noteq> i \<longrightarrow>
         todos (updateTodoTitle i rawTitle st) ! k = todos st ! k)) \<and>
   localStorage (updateTodoTitle i rawTitle st) =
     Some (JSON_stringify (todos (updateTodoTitle i rawTitle st))) \<and>
   (titles_nonblank (todos st) \<longrightarrow> titles_nonblank (todos (commit todo draft st)))"
proof -
  have c: "titles_nonblank (todos (commit todo draft st))" if inv: "titles_nonblank (todos st)"
  proof (cases "trim draft = []")
    case True
    then show ?thesis
      using inv by (simp add: commit_blank titles_nonblank_def list_all_iff)
  next
    case False
    then show ?thesis
      using inv by (auto simp: commit_nonblank trim_idem titles_nonblank_def list_all_iff)
  qed
  have s: "localStorage (updateTodoTitle i rawTitle st) =
     Some (JSON_stringify (todos (updateTodoTitle i rawTitle st)))"
    by (simp add: updateTodoTitle_def)
  show ?thesis using c s by (simp add: todos_updateTodoTitle)
qed

theorem updateTodoTitle_spec_witness:
  "titles_nonblank (todos st0) \<and>
   titles_nonblank (todos (commit (todos st0 ! 0) (ascii ''   '') st0)) \<and>
   length (todos (updateTodoTitle (ascii ''a1'') (ascii '' Buy oat milk '') st0)) = 2 \<and>
   todos (updateTodoTitle (ascii ''a1'') (ascii '' Buy oat milk '') st0) =
     [\<lparr>id' = ascii ''a1'', title = ascii ''Buy oat milk'', completed = False\<rparr>,
      \<lparr>id' = ascii ''b2'', title = ascii ''Walk dog'', completed = True\<rparr>]"
proof -
  have l: "length (todos st0) = 2"
    by (simp add: st0_def)
  have e: "todos (updateTodoTitle (ascii ''a1'') (ascii '' Buy oat milk '') st0) =
     [\<lparr>id' = ascii ''a1'', title = ascii ''Buy oat milk'', completed = False\<rparr>,
      \<lparr>id' = ascii ''b2'', title = ascii ''Walk dog'', completed = True\<rparr>]"
    by (simp add: todos_updateTodoTitle st0_def trim_def ascii_def is_ws_def)
  show ?thesis
    using updateTodoTitle_spec [of "ascii ''a1''" "ascii '' Buy oat milk ''" st0
        "todos st0 ! 0" "ascii ''   ''"]
      titles_nonblank_st0 l e
    by metis
qed

section \<open>Removing an id that is not there (C2)\<close>

text \<open>
  C2, as stated, fails: \<^verbatim>\<open>removeTodo\<close> calls \<^verbatim>\<open>saveTodos\<close> and \<^verbatim>\<open>render\<close>
  unconditionally. In the example state nothing is stored and nothing has been traced;
  after removing the unknown id \<open>zz\<close> the collection is the same, but the item has been
  written and the trace holds the write and the render.
\<close>

theorem removeTodo_absent_counterexample:
  "ascii ''zz'' \<notin> id' ` set (todos st0) \<and>
   todos (removeTodo (ascii ''zz'') st0) = todos st0 \<and>
   localStorage st0 = None \<and>
   localStorage (removeTodo (ascii ''zz'') st0) = Some (JSON_stringify (todos st0)) \<and>
   effects st0 = [] \<and>
   effects (removeTodo (ascii ''zz'') st0) = [SetItem (JSON_stringify (todos st0)), Render]"
proof -
  have a: "ascii ''zz'' \<notin> id' ` set (todos st0)"
    by (simp add: st0_def ascii_def)
  have e: "effects st0 = []" "localStorage st0 = None"
    by (simp_all add: st0_def)
  show ?thesis using a e by (simp add: removeTodo_def filter_absent)
qed

text \<open>
  C2, amended. For an id that no task of the collection has, \<^verbatim>\<open>removeTodo\<close> leaves the
  collection as it is, and still writes its serialisation to storage and renders: the
  write is not skipped.
\<close>

theorem removeTodo_absent:
  "i \<notin> id' ` set (todos st) \<Longrightarrow>
   todos (removeTodo i st) = todos st \<and>
   localStorage (removeTodo i st) = Some (JSON_stringify (todos st)) \<and>
   effects (removeTodo i st) = effects st @ [SetItem (JSON_stringify (todos st)), Render]"
  by (simp add: removeTodo_def filter_absent)

theorem removeTodo_absent_witness:
  "ascii ''q9'' \<notin> id' ` set (todos st0) \<and>
   todos (removeTodo (ascii ''q9'') st0) = todos st0 \<and>
   localStorage (removeTodo (ascii ''q9'') st0) = Some (JSON_stringify (todos st0)) \<and>
   effects (removeTodo (ascii ''q9'') st0) =
     effects st0 @ [SetItem (JSON_stringify (todos st0)), Render]"
proof -
  have a: "ascii ''q9'' \<notin> id' ` set (todos st0)"
    by (simp add: st0_def ascii_def)
  show ?thesis using removeTodo_absent [OF a] a by blast
qed

section \<open>Adding a task (C5)\<close>

text \<open>
  C5. If \<open>rawTitle\<close> trims to the empty string, which is when it consists of white
  space only, \<^verbatim>\<open>addTodo\<close> returns with the whole state as it was: no task, no write, no
  render. Otherwise the new collection is the old one with one task in front, whose
  title is the trimmed \<open>rawTitle\<close>, whose flag is false and whose id is the string that
  \<^verbatim>\<open>uid()\<close> returned for this call; the collection is then persisted.
\<close>

theorem addTodo_spec:
  "(trim rawTitle = [] \<longleftrightarrow> list_all is_ws rawTitle) \<and>
   (trim rawTitle = [] \<longrightarrow> addTodo u rawTitle st = st) \<and>
   (trim rawTitle \<noteq> [] \<longrightarrow>
      todos (addTodo u rawTitle st) =
        \<lparr>id' = u, title = trim rawTitle, completed = False\<rparr> # todos st \<and>
      localStorage (addTodo u rawTitle st) =
        Some (JSON_stringify (todos (addTodo u rawTitle st))))"
  by (simp add: addTodo_def Let_def trim_blank_iff)

theorem addTodo_spec_witness:
  "trim (ascii ''   '') = [] \<and>
   addTodo (ascii ''k3'') (ascii ''   '') st0 = st0 \<and>
   trim (ascii ''  Call mum '') \<noteq> [] \<and>
   todos (addTodo (ascii ''k3'') (ascii ''  Call mum '') st0) =
     \<lparr>id' = ascii ''k3'', title = ascii ''Call mum'', completed = False\<rparr> # todos st0"
  using addTodo_spec [of "ascii ''   ''" "ascii ''k3''" st0]
        addTodo_spec [of "ascii ''  Call mum ''" "ascii ''k3''" st0]
  by (simp add: trim_def ascii_def is_ws_def)

section \<open>Toggling a task (C6)\<close>

text \<open>
  C6. \<^verbatim>\<open>toggleTodo(id)\<close> keeps the length and the order of the collection. At every
  position, a task with the given id keeps its id and title and has its completed flag
  negated, and a task with another id is the same task as before. Toggling twice gives
  back the original collection. Where ids are distinct and the id is present, exactly
  one position of the collection changes.
\<close>

theorem toggleTodo_spec:
  "length (todos (toggleTodo i st)) = length (todos st) \<and>
   (\<forall>k < length (todos st).
      (id' (todos st ! k) = i \<longrightarrow>
         id' (todos (toggleTodo i st) ! k) = id' (todos st ! k) \<and>
         title (todos (toggleTodo i st) ! k) = title (todos st ! k) \<and>
         completed (todos (toggleTodo i st) ! k) = (\<not> completed (todos st ! k))) \<and>
      (id' (todos st ! k) \<noteq> i \<longrightarrow> todos (toggleTodo i st) ! k = todos st ! k)) \<and>
   todos (toggleTodo i (toggleTodo i st)) = todos st \<and>
   (distinct (map id' (todos st)) \<and> i \<in> id' ` set (todos st) \<longrightarrow>
      (\<exists>!k. k < length (todos st) \<and> todos (toggleTodo i st) ! k \<noteq> todos st ! k))"
proof -
  let ?f = "\<lambda>t::Todo. if id' t = i then t\<lparr>completed := \<not> completed t\<rparr> else t"
  have t: "todos (toggleTodo i st) = map ?f (todos st)"
    by (rule todos_toggleTodo)
  have twice: "todos (toggleTodo i (toggleTodo i st)) = todos st"
    by (simp add: todos_toggleTodo o_def map_idI)
  have changed: "todos (toggleTodo i st) ! k \<noteq> todos st ! k \<longleftrightarrow> id' (todos st ! k) = i"
    if "k < length (todos st)" for k
  proof -
    have "?f t \<noteq> t \<longleftrightarrow> id' t = i" for t :: Todo
      by (cases t) auto
    then show ?thesis using that by (simp add: t)
  qed
  have uniq: "\<exists>!k. k < length (todos st) \<and> todos (toggleTodo i st) ! k \<noteq> todos st ! k"
    if d: "distinct (map id' (todos st))" and m: "i \<in> id' ` set (todos st)"
  proof -
    from m obtain k where k: "k < length (todos st)" "id' (todos st ! k) = i"
      by (auto simp: in_set_conv_nth)
    have "j = k" if "j < length (todos st)" "id' (todos st ! j) = i" for j
      using d k that by (metis length_map nth_eq_iff_index_eq nth_map)
    with k changed show ?thesis by blast
  qed
  show ?thesis using twice uniq by (simp add: t)
qed

theorem toggleTodo_spec_witness:
  "distinct (map id' (todos st0)) \<and> ascii ''a1'' \<in> id' ` set (todos st0) \<and>
   (\<exists>!k. k < length (todos st0) \<and>
          todos (toggleTodo (ascii ''a1'') st0) ! k \<noteq> todos st0 ! k) \<and>
   todos (toggleTodo (ascii ''a1'') st0) =
     [\<lparr>id' = ascii ''a1'', title = ascii ''Buy milk'', completed = True\<rparr>,
      \<lparr>id' = ascii ''b2'', title = ascii ''Walk dog'', completed = True\<rparr>] \<and>
   todos (toggleTodo (ascii ''a1'') (toggleTodo (ascii ''a1'') st0)) = todos st0"
proof -
  have d: "distinct (map id' (todos st0))" and m: "ascii ''a1'' \<in> id' ` set (todos st0)"
    by (simp_all add: st0_def ascii_def)
  have e: "todos (toggleTodo (ascii ''a1'') st0) =
     [\<lparr>id' = ascii ''a1'', title = ascii ''Buy milk'', completed = True\<rparr>,
      \<lparr>id' = ascii ''b2'', title = ascii ''Walk dog'', completed = True\<rparr>]"
    by (simp add: todos_toggleTodo st0_def ascii_def)
  show ?thesis
    using toggleTodo_spec [of "ascii ''a1''" st0] d m e by blast
qed

section \<open>Committing an edit (C7)\<close>

text \<open>
  C7. \<^verbatim>\<open>commit\<close> trims the draft. If the result is not empty, the collection keeps its
  length and order; every task with the id of the edited task keeps its id and
  completed flag and gets the trimmed draft as its title, and every task with another
  id is the same task as before. If the result is empty, the new collection is the old
  one without the tasks of that id, so no task of that id is left.
\<close>

theorem commit_spec:
  "(trim draft \<noteq> [] \<longrightarrow>
      length (todos (commit todo draft st)) = length (todos st) \<and>
      (\<forall>k < length (todos st).
         (id' (todos st ! k) = id' todo \<longrightarrow>
            id' (todos (commit todo draft st) ! k) = id' (todos st ! k) \<and>
            title (todos (commit todo draft st) ! k) = trim draft \<and>
            completed (todos (commit todo draft st) ! k) = completed (todos st ! k)) \<and>
         (id' (todos st ! k) \<noteq> id' todo \<longrightarrow>
            todos (commit todo draft st) ! k = todos st ! k))) \<and>
   (trim draft = [] \<longrightarrow>
      todos (commit todo draft st) = filter (\<lambda>t. id' t \<noteq> id' todo) (todos st) \<and>
      id' todo \<notin> id' ` set (todos (commit todo draft st)))"
  by (auto simp: commit_nonblank commit_blank)

theorem commit_spec_witness:
  "trim (ascii '' New title'') \<noteq> [] \<and>
   todos (commit (todos st0 ! 1) (ascii '' New title'') st0) =
     [\<lparr>id' = ascii ''a1'', title = ascii ''Buy milk'', completed = False\<rparr>,
      \<lparr>id' = ascii ''b2'', title = ascii ''New title'', completed = True\<rparr>] \<and>
   length (todos (commit (todos st0 ! 1) (ascii '' New title'') st0)) = length (todos st0) \<and>
   trim (ascii ''   '') = [] \<and>
   todos (commit (todos st0 ! 1) (ascii ''   '') st0) =
     [\<lparr>id' = ascii ''a1'', title = ascii ''Buy milk'', completed = False\<rparr>] \<and>
   id' (todos st0 ! 1) \<notin> id' ` set (todos (commit (todos st0 ! 1) (ascii ''   '') st0))"
proof -
  have n: "trim (ascii '' New title'') \<noteq> []" and b: "trim (ascii ''   '') = []"
    by (simp_all add: trim_def ascii_def is_ws_def)
  have e1: "todos (commit (todos st0 ! 1) (ascii '' New title'') st0) =
     [\<lparr>id' = ascii ''a1'', title = ascii ''Buy milk'', completed = False\<rparr>,
      \<lparr>id' = ascii ''b2'', title = ascii ''New title'', completed = True\<rparr>]"
    by (simp add: commit_nonblank [OF n]) (simp add: st0_def trim_def ascii_def is_ws_def)
  have e2: "todos (commit (todos st0 ! 1) (ascii ''   '') st0) =
     [\<lparr>id' = ascii ''a1'', title = ascii ''Buy milk'', completed = False\<rparr>]"
    by (simp add: commit_blank [OF b]) (simp add: st0_def ascii_def)
  show ?thesis
    using commit_spec [of "ascii '' New title''" "todos st0 ! 1" st0]
          commit_spec [of "ascii ''   ''" "todos st0 ! 1" st0] n b e1 e2
    by blast
qed

section \<open>The visible list (C8)\<close>

lemma filtered_all: "filtered (st\<lparr>currentFilter := Filter_all\<rparr>) = todos st"
  by (simp add: filtered_def)

lemma filtered_active:
  "filtered (st\<lparr>currentFilter := Filter_active\<rparr>) = filter (\<lambda>t. \<not> completed t) (todos st)"
  by (simp add: filtered_def)

lemma filtered_completed:
  "filtered (st\<lparr>currentFilter := Filter_completed\<rparr>) = filter completed (todos st)"
  by (simp add: filtered_def)

lemma todoList_render: "todoList (dom (render st)) = map li (filtered st)"
  by (simp add: render_def)

text \<open>
  C8. The rows that \<^verbatim>\<open>render\<close> leaves in the list are, in collection order, the rows of
  all tasks under the filter \<^verbatim>\<open>all\<close>, of the tasks that are not completed under
  \<^verbatim>\<open>active\<close>, and of the completed tasks under \<^verbatim>\<open>completed\<close>. Under every filter the
  visible tasks are a subsequence of the collection, and rendering leaves the collection
  itself as it is.
\<close>

theorem render_visible:
  "todoList (dom (render (st\<lparr>currentFilter := Filter_all\<rparr>))) = map li (todos st) \<and>
   todoList (dom (render (st\<lparr>currentFilter := Filter_active\<rparr>))) =
     map li (filter (\<lambda>t. \<not> completed t) (todos st)) \<and>
   todoList (dom (render (st\<lparr>currentFilter := Filter_completed\<rparr>))) =
     map li (filter (\<lambda>t. completed t) (todos st)) \<and>
   subseq (filtered st) (todos st) \<and>
   todos (render st) = todos st"
  by (simp add: todoList_render filtered_all filtered_active filtered_completed)
     (simp add: filtered_def)

theorem render_visible_witness:
  "todoList (dom (render (st0\<lparr>currentFilter := Filter_all\<rparr>))) =
     [li (todos st0 ! 0), li (todos st0 ! 1)] \<and>
   todoList (dom (render (st0\<lparr>currentFilter := Filter_active\<rparr>))) = [li (todos st0 ! 0)] \<and>
   todoList (dom (render (st0\<lparr>currentFilter := Filter_completed\<rparr>))) = [li (todos st0 ! 1)]"
  using render_visible [of st0] by (simp add: todos_st0)

section \<open>The count of remaining tasks (C9)\<close>

lemma decimal_value_snoc: "decimal_value (s @ [c]) = 10 * decimal_value s + unat (c - 0x30)"
  by (simp add: decimal_value_def)

lemma digit_value: "d < 10 \<Longrightarrow> unat (digit d - 0x30) = d"
  by (simp add: digit_def unat_of_nat)

lemma decimal_value_decimal: "decimal_value (decimal n) = n"
proof (induction n rule: decimal.induct)
  case (1 n)
  show ?case
  proof (cases "n < 10")
    case True
    then show ?thesis
      using decimal_value_snoc [of "[]" "digit n"]
      by (simp add: decimal.simps [of n] digit_value) (simp add: decimal_value_def)
  next
    case False
    with 1 show ?thesis
      by (simp add: decimal.simps [of n] decimal_value_snoc digit_value)
  qed
qed

lemma decimal_0: "decimal 0 = ascii ''0''"
  by (simp add: decimal.simps [of 0] digit_def ascii_def)

lemma decimal_1: "decimal (Suc 0) = ascii ''1''"
  by (subst decimal.simps) (simp add: digit_def ascii_def)

lemma is_digit_digit: "d < 10 \<Longrightarrow> is_digit (digit d)"
proof -
  assume "d < 10"
  then have "d = 0 \<or> d = 1 \<or> d = 2 \<or> d = 3 \<or> d = 4 \<or> d = 5 \<or> d = 6 \<or> d = 7 \<or> d = 8 \<or> d = 9"
    by arith
  then show ?thesis
    by (elim disjE; simp add: is_digit_def digit_def)
qed

lemma digit_eq_zero: "d < 10 \<Longrightarrow> digit d = 0x30 \<Longrightarrow> d = 0"
  using digit_value [of d] by (simp add: digit_def)

lemma decimal_digits: "list_all is_digit (decimal n)"
proof (induction n rule: decimal.induct)
  case (1 n)
  show ?case
  proof (cases "n < 10")
    case True
    then show ?thesis by (simp add: decimal.simps [of n] is_digit_digit)
  next
    case False
    with 1 show ?thesis by (simp add: decimal.simps [of n] is_digit_digit)
  qed
qed

lemma decimal_nonempty: "decimal n \<noteq> []"
  by (subst decimal.simps) simp

lemma decimal_no_leading_zero: "n \<noteq> 0 \<Longrightarrow> hd (decimal n) \<noteq> 0x30"
proof (induction n rule: decimal.induct)
  case (1 n)
  show ?case
  proof (cases "n < 10")
    case True
    with 1(2) show ?thesis
      using digit_eq_zero [of n] by (auto simp: decimal.simps [of n])
  next
    case False
    then have "n div 10 \<noteq> 0" by simp
    with 1(1) False have "hd (decimal (n div 10)) \<noteq> 0x30" by simp
    with False show ?thesis
      by (simp add: decimal.simps [of n] decimal_nonempty)
  qed
qed

lemma todoCount_render:
  "todoCount (dom (render st)) =
     decimal (remaining st) @ ascii '' item'' @
     (if remaining st \<noteq> 1 then ascii ''s'' else []) @ ascii '' left''"
  by (simp add: render_def)

text \<open>
  C9. The number \<^verbatim>\<open>render\<close> prints is the number of positions of the whole collection
  whose task is not completed, whatever the filter is. The text is \<open>1 item left\<close> when
  that number is one, \<open>0 items left\<close> when it is zero, and in every case other than one
  the decimal digits of the number followed by \<open> items left\<close>. What is printed for
  the number consists of digits only, has no leading zero, and reads back as the number.
\<close>

theorem render_todoCount:
  "remaining st = card {k. k < length (todos st) \<and> \<not> completed (todos st ! k)} \<and>
   remaining (st\<lparr>currentFilter := f\<rparr>) = remaining st \<and>
   (remaining st = 1 \<longrightarrow>
      todoCount (dom (render (st\<lparr>currentFilter := f\<rparr>))) = ascii ''1 item left'') \<and>
   (remaining st = 0 \<longrightarrow>
      todoCount (dom (render (st\<lparr>currentFilter := f\<rparr>))) = ascii ''0 items left'') \<and>
   (remaining st \<noteq> 1 \<longrightarrow>
      todoCount (dom (render (st\<lparr>currentFilter := f\<rparr>))) =
        decimal (remaining st) @ ascii '' items left'') \<and>
   list_all is_digit (decimal (remaining st)) \<and>
   (remaining st \<noteq> 0 \<longrightarrow> hd (decimal (remaining st)) \<noteq> 0x30) \<and>
   decimal_value (decimal (remaining st)) = remaining st"
proof -
  have r: "remaining (st\<lparr>currentFilter := f\<rparr>) = remaining st"
    by (simp add: remaining_def)
  have c: "remaining st = card {k. k < length (todos st) \<and> \<not> completed (todos st ! k)}"
    by (simp add: remaining_def length_filter_conv_card)
  have one: "todoCount (dom (render (st\<lparr>currentFilter := f\<rparr>))) = ascii ''1 item left''"
    if "remaining st = 1"
    using that by (simp add: todoCount_render r decimal_1) (simp add: ascii_def)
  have other: "todoCount (dom (render (st\<lparr>currentFilter := f\<rparr>))) =
        decimal (remaining st) @ ascii '' items left''"
    if "remaining st \<noteq> 1"
    using that by (simp add: todoCount_render r) (simp add: ascii_def)
  have zero: "todoCount (dom (render (st\<lparr>currentFilter := f\<rparr>))) = ascii ''0 items left''"
    if "remaining st = 0"
    using that other by (simp add: decimal_0) (simp add: ascii_def)
  show ?thesis
    using r c one other zero decimal_value_decimal decimal_digits decimal_no_leading_zero
    by blast
qed

theorem render_todoCount_witness:
  "remaining st0 = 1 \<and>
   todoCount (dom (render (st0\<lparr>currentFilter := Filter_completed\<rparr>))) = ascii ''1 item left'' \<and>
   remaining (st0\<lparr>todos := []\<rparr>) = 0 \<and> remaining (st0\<lparr>todos := []\<rparr>) \<noteq> 1 \<and>
   todoCount (dom (render (st0\<lparr>todos := []\<rparr>\<lparr>currentFilter := Filter_active\<rparr>))) =
     ascii ''0 items left''"
proof -
  have 1: "remaining st0 = 1" and 0: "remaining (st0\<lparr>todos := []\<rparr>) = 0"
    by (simp_all add: remaining_def st0_def)
  from 0 have n: "remaining (st0\<lparr>todos := []\<rparr>) \<noteq> 1"
    by simp
  show ?thesis
    using render_todoCount [of st0 Filter_completed]
          render_todoCount [of "st0\<lparr>todos := []\<rparr>" Filter_active] 0 1 n
    by blast
qed

section \<open>Toggling and renaming an id that is not there (C10)\<close>

text \<open>
  C10. For an id that no task of the collection has, \<^verbatim>\<open>toggleTodo\<close> and
  \<^verbatim>\<open>updateTodoTitle\<close> leave the collection as it is, element by element, and both still
  write its serialisation to storage and then render: the trace grows by exactly that
  write and that render.
\<close>

theorem absent_id_still_persists:
  "i \<notin> id' ` set (todos st) \<Longrightarrow>
   todos (toggleTodo i st) = todos st \<and>
   localStorage (toggleTodo i st) = Some (JSON_stringify (todos st)) \<and>
   effects (toggleTodo i st) = effects st @ [SetItem (JSON_stringify (todos st)), Render] \<and>
   todos (updateTodoTitle i rawTitle st) = todos st \<and>
   localStorage (updateTodoTitle i rawTitle st) = Some (JSON_stringify (todos st)) \<and>
   effects (updateTodoTitle i rawTitle st) =
     effects st @ [SetItem (JSON_stringify (todos st)), Render]"
  by (simp add: toggleTodo_def updateTodoTitle_def map_absent)

theorem absent_id_still_persists_witness:
  "ascii ''zz'' \<notin> id' ` set (todos st0) \<and>
   todos (toggleTodo (ascii ''zz'') st0) = todos st0 \<and>
   effects (toggleTodo (ascii ''zz'') st0) = [SetItem (JSON_stringify (todos st0)), Render] \<and>
   todos (updateTodoTitle (ascii ''zz'') (ascii ''x'') st0) = todos st0 \<and>
   effects (updateTodoTitle (ascii ''zz'') (ascii ''x'') st0) =
     [SetItem (JSON_stringify (todos st0)), Render]"
proof -
  have a: "ascii ''zz'' \<notin> id' ` set (todos st0)"
    by (simp add: st0_def ascii_def)
  have e: "effects st0 = []"
    by (simp add: st0_def)
  show ?thesis
    using absent_id_still_persists [OF a, of "ascii ''x''"] a e by simp
qed

section \<open>Strings written by \<^verbatim>\<open>JSON.stringify\<close> parse back\<close>

lemma hex_digits_nat:
  assumes "(n::nat) < 65536"
  shows "((n div 4096 mod 16 * 16 + n div 256 mod 16) * 16 + n div 16 mod 16) * 16 + n mod 16 = n"
proof -
  define d3 d2 d1 d0 where "d3 = n div 4096" and "d2 = n div 256 mod 16"
    and "d1 = n div 16 mod 16" and "d0 = n mod 16"
  define q1 q2 where "q1 = n div 16" and "q2 = n div 256"
  have e0: "n = q1 * 16 + d0"
    unfolding q1_def d0_def by (rule div_mult_mod_eq [symmetric])
  have "n div 256 = n div 16 div 16"
    by (simp add: div_mult2_eq [symmetric])
  then have e1: "q1 = q2 * 16 + d1"
    unfolding q1_def q2_def d1_def by (simp only: div_mult_mod_eq)
  have "n div 4096 = n div 256 div 16"
    by (simp add: div_mult2_eq [symmetric])
  then have e2: "q2 = d3 * 16 + d2"
    unfolding q2_def d3_def d2_def by (simp only: div_mult_mod_eq)
  have "d3 < 16"
    unfolding d3_def using assms by (simp add: less_mult_imp_div_less)
  then have m: "d3 mod 16 = d3"
    by simp
  have "((d3 mod 16 * 16 + d2) * 16 + d1) * 16 + d0 = n"
    unfolding m using e0 e1 e2 by simp
  then show ?thesis
    unfolding d3_def d2_def d1_def d0_def .
qed


lemma cons_char_simps [simp]:
  "cons_char c None = None"
  "cons_char c (Some (s, r)) = Some (c # s, r)"
  by (simp_all add: cons_char_def)

lemma lt16_cases:
  "(k::nat) < 16 \<Longrightarrow>
   k = 0 \<or> k = 1 \<or> k = 2 \<or> k = 3 \<or> k = 4 \<or> k = 5 \<or> k = 6 \<or> k = 7 \<or>
   k = 8 \<or> k = 9 \<or> k = 10 \<or> k = 11 \<or> k = 12 \<or> k = 13 \<or> k = 14 \<or> k = 15"
  by arith

lemma hexval_hexdigit: "k < 16 \<Longrightarrow> hexval (hexdigit k) = Some k"
  by (drule lt16_cases) (elim disjE; simp add: hexval_def hexdigit_def)

lemma hex4_unicode_escape:
  "hex4 (hexdigit (unat c div 4096 mod 16)) (hexdigit (unat c div 256 mod 16))
        (hexdigit (unat c div 16 mod 16)) (hexdigit (unat c mod 16)) = Some c"
proof -
  have "unat c < 65536" using unsigned_less [of c] by simp
  then have e: "((unat c div 4096 mod 16 * 16 + unat c div 256 mod 16) * 16 + unat c div 16 mod 16) * 16
      + unat c mod 16 = unat c"
    by (rule hex_digits_nat)
  have "hex4 (hexdigit (unat c div 4096 mod 16)) (hexdigit (unat c div 256 mod 16))
        (hexdigit (unat c div 16 mod 16)) (hexdigit (unat c mod 16)) =
        Some (of_nat (((unat c div 4096 mod 16 * 16 + unat c div 256 mod 16) * 16 + unat c div 16 mod 16) * 16
      + unat c mod 16))"
    unfolding hex4_def by (simp only: hexval_hexdigit mod_less_divisor zero_less_numeral prod.case option.case)
  then show ?thesis by (simp only: e) simp
qed


lemma parse_chars_unicode_escape:
  "parse_chars (unicode_escape c @ rest) = cons_char c (parse_chars rest)"
  by (simp add: unicode_escape_def hex4_unicode_escape)

lemma parse_chars_quote_unit:
  "parse_chars (quote_unit c @ rest) = cons_char c (parse_chars rest)"
  by (simp add: quote_unit_def parse_chars_unicode_escape escape_char_def del: parse_chars.simps)
     (simp add: escape_char_def)


lemma lead_plain: "is_lead c \<Longrightarrow> c \<noteq> 0x22 \<and> c \<noteq> 0x5C \<and> \<not> c < 0x20"
  by (auto simp: is_lead_def word_le_nat_alt word_less_nat_alt)

lemma trail_plain: "is_trail c \<Longrightarrow> c \<noteq> 0x22 \<and> c \<noteq> 0x5C \<and> \<not> c < 0x20"
  by (auto simp: is_trail_def word_le_nat_alt word_less_nat_alt)

lemma parse_chars_plain:
  "c \<noteq> 0x22 \<and> c \<noteq> 0x5C \<and> \<not> c < 0x20 \<Longrightarrow>
   parse_chars (c # rest) = cons_char c (parse_chars rest)"
  by simp

lemma parse_chars_quote_body:
  "parse_chars (quote_body s @ 0x22 # rest) = Some (s, rest)"
proof (induction s rule: quote_body.induct)
  case 1
  show ?case by simp
next
  case (2 c)
  show ?case by (simp add: parse_chars_quote_unit del: parse_chars.simps) simp
next
  case (3 c d cs)
  show ?case
  proof (cases "is_lead c \<and> is_trail d")
    case True
    then have "parse_chars (quote_body (c # d # cs) @ 0x22 # rest) =
      cons_char c (cons_char d (parse_chars (quote_body cs @ 0x22 # rest)))"
      by (simp add: parse_chars_plain [OF lead_plain] parse_chars_plain [OF trail_plain]
            del: parse_chars.simps)
    with 3 True show ?thesis by simp
  next
    case False
    then have q: "quote_body (c # d # cs) = quote_unit c @ quote_body (d # cs)"
      by auto
    have "parse_chars (quote_body (c # d # cs) @ 0x22 # rest) =
      cons_char c (parse_chars (quote_body (d # cs) @ 0x22 # rest))"
      unfolding q by (simp add: parse_chars_quote_unit del: parse_chars.simps quote_body.simps)
    with 3 False show ?thesis by simp
  qed
qed

lemma parse_value_QuoteJSONString:
  "parse_value (Suc n) (QuoteJSONString s @ rest) = Inr (JString s, rest)"
  by (simp add: QuoteJSONString_def skip_ws_def is_json_ws_def parse_chars_quote_body
        del: parse_chars.simps)


lemma parse_value_object_open:
  "parse_value (Suc n) (0x7B # 0x22 # s) =
     (case parse_members n (0x22 # s) of
        Inl e \<Rightarrow> Inl e
      | Inr (ms, r) \<Rightarrow> Inr (JObject ms, r))"
  by (simp add: skip_ws_def is_json_ws_def)

lemma parse_value_true:
  "parse_value (Suc n) (0x74 # 0x72 # 0x75 # 0x65 # rest) = Inr (JBool True, rest)"
  by (simp add: skip_ws_def is_json_ws_def ascii_def)

lemma parse_value_false:
  "parse_value (Suc n) (0x66 # 0x61 # 0x6C # 0x73 # 0x65 # rest) = Inr (JBool False, rest)"
  by (simp add: skip_ws_def is_json_ws_def ascii_def)

lemma parse_value_stringify_Todo:
  "parse_value (Suc (Suc (Suc (Suc (Suc n))))) (stringify_Todo t @ rest) =
     Inr (value_of_Todo t, rest)"
  by (simp add: stringify_Todo_def value_of_Todo_def ascii_def skip_ws_def is_json_ws_def
        parse_chars_quote_body parse_value_QuoteJSONString parse_value_object_open
        parse_value_true parse_value_false
        del: parse_value.simps)


lemma parse_value_stringify_Todo_fuel:
  assumes "5 \<le> m"
  shows "parse_value m (stringify_Todo t @ rest) = Inr (value_of_Todo t, rest)"
proof -
  from assms have "m = Suc (Suc (Suc (Suc (Suc (m - 5)))))"
    by simp
  then show ?thesis
    using parse_value_stringify_Todo [of "m - 5" t rest] by simp
qed

lemma parse_elements_last:
  "parse_value m s = Inr (v, 0x5D # r) \<Longrightarrow> parse_elements (Suc m) s = Inr ([v], r)"
  by (simp add: skip_ws_def is_json_ws_def)

lemma parse_elements_more:
  "parse_value m s = Inr (v, 0x2C # r) \<Longrightarrow>
   parse_elements (Suc m) s =
     (case parse_elements m r of Inl e \<Rightarrow> Inl e | Inr (vs, r') \<Rightarrow> Inr (v # vs, r'))"
  by (simp add: skip_ws_def is_json_ws_def)

lemma parse_elements_stringify_elements:
  "ts \<noteq> [] \<Longrightarrow>
   parse_elements (length ts + 5 + n) (stringify_elements ts @ 0x5D # rest) =
     Inr (map value_of_Todo ts, rest)"
proof (induction ts rule: stringify_elements.induct)
  case 1
  then show ?case by simp
next
  case (2 t)
  have "parse_value (5 + n) (stringify_Todo t @ 0x5D # rest) = Inr (value_of_Todo t, 0x5D # rest)"
    by (rule parse_value_stringify_Todo_fuel) simp
  then have "parse_elements (Suc (5 + n)) (stringify_Todo t @ 0x5D # rest) =
      Inr ([value_of_Todo t], rest)"
    by (rule parse_elements_last)
  then show ?case by simp
next
  case (3 t u ts)
  let ?m = "length (u # ts) + 5 + n"
  let ?r = "stringify_elements (u # ts) @ 0x5D # rest"
  have "parse_value ?m (stringify_Todo t @ 0x2C # ?r) = Inr (value_of_Todo t, 0x2C # ?r)"
    by (rule parse_value_stringify_Todo_fuel) simp
  then have "parse_elements (Suc ?m) (stringify_Todo t @ 0x2C # ?r) =
     (case parse_elements ?m ?r of
        Inl e \<Rightarrow> Inl e
      | Inr (vs, r') \<Rightarrow> Inr (value_of_Todo t # vs, r'))"
    by (rule parse_elements_more)
  also have "parse_elements ?m ?r = Inr (map value_of_Todo (u # ts), rest)"
    using 3 by simp
  finally have "parse_elements (Suc ?m) (stringify_Todo t @ 0x2C # ?r) =
      Inr (map value_of_Todo (t # u # ts), rest)"
    by simp
  moreover have "stringify_elements (t # u # ts) @ 0x5D # rest = stringify_Todo t @ 0x2C # ?r"
    by (simp add: ascii_def)
  moreover have "length (t # u # ts) + 5 + n = Suc ?m"
    by simp
  ultimately show ?case by (simp only:)
qed

lemma stringify_Todo_brace: "\<exists>s. stringify_Todo t = 0x7B # 0x22 # s"
  by (simp add: stringify_Todo_def ascii_def)

lemma stringify_elements_brace: "ts \<noteq> [] \<Longrightarrow> \<exists>s. stringify_elements ts = 0x7B # 0x22 # s"
proof (induction ts rule: stringify_elements.induct)
  case 1
  then show ?case by simp
next
  case (2 t)
  then show ?case using stringify_Todo_brace [of t] by simp
next
  case (3 t u ts)
  then show ?case using stringify_Todo_brace [of t] by auto
qed

lemma length_stringify_elements: "length ts \<le> length (stringify_elements ts)"
proof (induction ts rule: stringify_elements.induct)
  case 1
  show ?case by simp
next
  case (2 t)
  show ?case using stringify_Todo_brace [of t] by auto
next
  case (3 t u ts)
  then show ?case using stringify_Todo_brace [of t] by auto
qed

lemma parse_value_array_open:
  "parse_value (Suc n) (0x5B # 0x7B # s) =
     (case parse_elements n (0x7B # s) of
        Inl e \<Rightarrow> Inl e
      | Inr (vs, r) \<Rightarrow> Inr (JArray vs, r))"
  by (simp add: skip_ws_def is_json_ws_def)

lemma JSON_parse_stringify: "JSON_parse (JSON_stringify ts) = Inr (value_of_Todos ts)"
proof (cases "ts = []")
  case True
  have "parse_value (Suc n) [0x5B, 0x5D] = Inr (JArray [], [])" for n
    by (simp add: skip_ws_def is_json_ws_def)
  from this [of 4] have "parse_value 5 [0x5B, 0x5D] = Inr (JArray [], [])"
    by simp
  with True show ?thesis
    by (simp add: JSON_parse_def JSON_stringify_def value_of_Todos_def ascii_def skip_ws_def)
next
  case False
  let ?e = "stringify_elements ts"
  let ?N = "2 * length (JSON_stringify ts)"
  from False obtain s where s: "?e = 0x7B # 0x22 # s"
    using stringify_elements_brace by blast
  have js: "JSON_stringify ts = 0x5B # ?e @ [0x5D]"
    by (simp add: JSON_stringify_def ascii_def)
  have "length ts + 5 \<le> ?N"
    using False length_stringify_elements [of ts] unfolding js by (cases ts) auto
  then obtain n where n: "?N = length ts + 5 + n"
    using le_Suc_ex by blast
  have pe: "parse_elements ?N (?e @ [0x5D]) = Inr (map value_of_Todo ts, [])"
    unfolding n using False by (rule parse_elements_stringify_elements)
  have "parse_value (Suc ?N) (0x5B # ?e @ [0x5D]) = Inr (JArray (map value_of_Todo ts), [])"
    using pe unfolding s by (simp add: parse_value_array_open del: parse_value.simps parse_elements.simps)
  then have "parse_value (2 * length (JSON_stringify ts) + 1) (JSON_stringify ts) =
      Inr (JArray (map value_of_Todo ts), [])"
    by (simp add: js [symmetric])
  then show ?thesis
    by (simp add: JSON_parse_def value_of_Todos_def skip_ws_def)
qed

section \<open>The parser consumes its input and never runs out of fuel\<close>

lemma length_skip_ws: "length (skip_ws s) \<le> length s"
  by (simp add: skip_ws_def length_dropWhile_le)

lemma skip_ws_Cons_length: "skip_ws s = c # cs \<Longrightarrow> length cs < length s"
  using length_skip_ws [of s] by simp

lemma cons_char_Some: "cons_char c res = Some (k, r) \<Longrightarrow> \<exists>k'. res = Some (k', r)"
  by (cases res) auto

lemma parse_chars_consumes: "parse_chars s = Some (k, r) \<Longrightarrow> length r < length s"
proof (induction "length s" arbitrary: s k r rule: less_induct)
  case less
  note IH = less.hyps
  note p = less.prems
  show ?case
  proof (cases s)
    case Nil
    with p show ?thesis by simp
  next
    case s: (Cons c cs)
    show ?thesis
    proof (cases "c = 0x22")
      case True
      with p s show ?thesis by simp
    next
      case q: False
      show ?thesis
      proof (cases "c = 0x5C")
        case False
        with q p s have "cons_char c (parse_chars cs) = Some (k, r)"
          by (auto split: if_splits)
        then obtain k' where "parse_chars cs = Some (k', r)"
          using cons_char_Some by blast
        from IH [OF _ this] s show ?thesis by simp
      next
        case b: True
        show ?thesis
        proof (cases cs)
          case Nil
          with q b p s show ?thesis by simp
        next
          case cs: (Cons e cs1)
          show ?thesis
          proof (cases "e = 0x75")
            case False
            with q b cs p s obtain u where "cons_char u (parse_chars cs1) = Some (k, r)"
              by (auto split: option.splits)
            then obtain k' where "parse_chars cs1 = Some (k', r)"
              using cons_char_Some by blast
            from IH [OF _ this] s cs show ?thesis by simp
          next
            case u: True
            with q b cs p s obtain h1 h2 h3 h4 cs2 w where
              cs1: "cs1 = h1 # h2 # h3 # h4 # cs2"
              and "cons_char w (parse_chars cs2) = Some (k, r)"
              by (auto split: list.splits option.splits)
            then obtain k' where "parse_chars cs2 = Some (k', r)"
              using cons_char_Some by blast
            from IH [OF _ this] s cs cs1 show ?thesis by simp
          qed
        qed
      qed
    qed
  qed
qed

lemma digits1_consumes: "digits1 s = Some (d, r) \<Longrightarrow> length r < length s"
proof -
  assume a: "digits1 s = Some (d, r)"
  then have t: "takeWhile is_digit s \<noteq> []" and r: "r = dropWhile is_digit s"
    by (auto simp: digits1_def split: if_splits)
  have "length (takeWhile is_digit s) + length (dropWhile is_digit s) = length s"
    by (metis length_append takeWhile_dropWhile_id)
  with t r show ?thesis by (cases "takeWhile is_digit s") auto
qed

lemma parse_int_consumes: "parse_int s = Some (i, r) \<Longrightarrow> length r < length s"
  by (auto simp: parse_int_def split: list.splits if_splits dest: digits1_consumes)

lemma parse_frac_consumes: "parse_frac s = Some (f, r) \<Longrightarrow> length r \<le> length s"
  by (auto simp: parse_frac_def split: list.splits if_splits option.splits dest: digits1_consumes)

lemma parse_exp_consumes: "parse_exp s = Some (e, r) \<Longrightarrow> length r \<le> length s"
  by (auto simp: parse_exp_def split: list.splits if_splits option.splits dest: digits1_consumes)

lemma parse_number_consumes: "parse_number s = Some (n, r) \<Longrightarrow> length r < length s"
proof -
  assume a: "parse_number s = Some (n, r)"
  define s1 where "s1 = (case s of [] \<Rightarrow> s | c # cs \<Rightarrow> if c = 0x2D then cs else s)"
  have l: "length s1 \<le> length s"
    by (auto simp: s1_def split: list.splits)
  from a obtain i s2 f s3 e where "parse_int s1 = Some (i, s2)" "parse_frac s2 = Some (f, s3)"
    "parse_exp s3 = Some (e, r)"
    by (auto simp: parse_number_def s1_def split: list.splits if_splits option.splits)
  then show ?thesis
    using l parse_int_consumes parse_frac_consumes parse_exp_consumes
    by (meson le_trans less_le_trans not_le)
qed

lemma strip_prefix_consumes: "strip_prefix p s = Some r \<Longrightarrow> length r \<le> length s"
  by (induction p s rule: strip_prefix.induct) (auto split: if_splits)


lemma parse_consumes:
  "(parse_value n s = Inr (v, r) \<longrightarrow> length r < length s) \<and>
   (parse_elements n s = Inr (vs, r') \<longrightarrow> length r' < length s) \<and>
   (parse_members n s = Inr (ms, r'') \<longrightarrow> length r'' < length s)"
proof (induction n arbitrary: s v r vs r' ms r'')
  case 0
  show ?case by simp
next
  case (Suc n)
  have V: "length r < length s" if "parse_value n s = Inr (v, r)" for s v r
    using Suc [of s v r] that by blast
  have E: "length r < length s" if "parse_elements n s = Inr (vs, r)" for s vs r
    using Suc [of s _ _ vs r] that by blast
  have M: "length r < length s" if "parse_members n s = Inr (ms, r)" for s ms r
    using Suc [of s _ _ _ _ ms r] that by blast
  have 1: "length r < length s" if a: "parse_value (Suc n) s = Inr (v, r)"
  proof (cases "skip_ws s")
    case Nil
    with a show ?thesis by simp
  next
    case (Cons c cs)
    note l = skip_ws_Cons_length [OF Cons]
    consider (arr) "c = 0x5B" | (obj) "c \<noteq> 0x5B" "c = 0x7B" | (str) "c \<noteq> 0x5B" "c \<noteq> 0x7B" "c = 0x22"
      | (other) "c \<noteq> 0x5B" "c \<noteq> 0x7B" "c \<noteq> 0x22"
      by blast
    then show ?thesis
    proof cases
      case arr
      show ?thesis
      proof (cases "skip_ws cs")
        case Nil
        with a Cons arr show ?thesis by simp
      next
        case d: (Cons d ds)
        show ?thesis
        proof (cases "d = 0x5D")
          case True
          with a Cons arr d have "r = ds" by simp
          with skip_ws_Cons_length [OF d] l show ?thesis by simp
        next
          case False
          with a Cons arr d obtain vs where "parse_elements n cs = Inr (vs, r)"
            by (auto split: sum.splits)
          from E [OF this] l show ?thesis by simp
        qed
      qed
    next
      case obj
      show ?thesis
      proof (cases "skip_ws cs")
        case Nil
        with a Cons obj show ?thesis by simp
      next
        case d: (Cons d ds)
        show ?thesis
        proof (cases "d = 0x7D")
          case True
          with a Cons obj d have "r = ds" by simp
          with skip_ws_Cons_length [OF d] l show ?thesis by simp
        next
          case False
          with a Cons obj d obtain ms where "parse_members n cs = Inr (ms, r)"
            by (auto split: sum.splits)
          from M [OF this] l show ?thesis by simp
        qed
      qed
    next
      case str
      with a Cons obtain k where "parse_chars cs = Some (k, r)"
        by (auto split: option.splits)
      from parse_chars_consumes [OF this] l show ?thesis by simp
    next
      case other
      with a Cons have
        "(\<exists>p. strip_prefix p cs = Some r) \<or> (\<exists>m. parse_number (c # cs) = Some (m, r))"
        by (auto split: if_splits option.splits)
      then show ?thesis
      proof
        assume "\<exists>p. strip_prefix p cs = Some r"
        then obtain p where "strip_prefix p cs = Some r" ..
        from strip_prefix_consumes [OF this] l show ?thesis by simp
      next
        assume "\<exists>m. parse_number (c # cs) = Some (m, r)"
        then obtain m where "parse_number (c # cs) = Some (m, r)" ..
        from parse_number_consumes [OF this] l show ?thesis by simp
      qed
    qed
  qed
  have 2: "length r' < length s" if a: "parse_elements (Suc n) s = Inr (vs, r')"
  proof -
    from a obtain v0 r0 where v: "parse_value n s = Inr (v0, r0)"
      by (auto split: sum.splits)
    from a v obtain c cs where c: "skip_ws r0 = c # cs"
      by (auto split: list.splits)
    have l: "length cs < length s"
      using V [OF v] skip_ws_Cons_length [OF c] by simp
    show ?thesis
    proof (cases "c = 0x5D")
      case True
      with a v c have "r' = cs" by simp
      with l show ?thesis by simp
    next
      case False
      with a v c obtain vs' where "parse_elements n cs = Inr (vs', r')"
        by (auto split: if_splits sum.splits)
      from E [OF this] l show ?thesis by simp
    qed
  qed
  have 3: "length r'' < length s" if a: "parse_members (Suc n) s = Inr (ms, r'')"
  proof -
    from a obtain q s1 where q: "skip_ws s = q # s1"
      by (auto split: list.splits)
    from a q obtain k s2 where k: "parse_chars s1 = Some (k, s2)"
      by (auto split: if_splits option.splits)
    from a q k obtain c s3 where c: "skip_ws s2 = c # s3"
      by (auto split: if_splits list.splits)
    from a q k c obtain v0 s4 where v: "parse_value n s3 = Inr (v0, s4)"
      by (auto split: if_splits sum.splits)
    from a q k c v obtain d s5 where d: "skip_ws s4 = d # s5"
      by (auto split: if_splits list.splits)
    have l: "length s5 < length s"
      using skip_ws_Cons_length [OF q] parse_chars_consumes [OF k] skip_ws_Cons_length [OF c]
        V [OF v] skip_ws_Cons_length [OF d]
      by simp
    show ?thesis
    proof (cases "d = 0x7D")
      case True
      with a q k c v d have "r'' = s5" by (auto split: if_splits)
      with l show ?thesis by simp
    next
      case False
      with a q k c v d obtain ms' where "parse_members n s5 = Inr (ms', r'')"
        by (auto split: if_splits sum.splits)
      from M [OF this] l show ?thesis by simp
    qed
  qed
  from 1 2 3 show ?case by blast
qed


lemma parse_value_consumes: "parse_value n s = Inr (v, r) \<Longrightarrow> length r < length s"
  using parse_consumes [of n s v r] by blast

lemma parse_fuel:
  "(2 * length s < n \<longrightarrow> parse_value n s \<noteq> Inl OutOfFuel) \<and>
   (2 * length s + 1 < n \<longrightarrow> parse_elements n s \<noteq> Inl OutOfFuel) \<and>
   (2 * length s + 1 < n \<longrightarrow> parse_members n s \<noteq> Inl OutOfFuel)"
proof (induction n arbitrary: s)
  case 0
  show ?case by simp
next
  case (Suc n)
  have V: "parse_value n s \<noteq> Inl OutOfFuel" if "2 * length s < n" for s
    using Suc [of s] that by blast
  have E: "parse_elements n s \<noteq> Inl OutOfFuel" if "2 * length s + 1 < n" for s
    using Suc [of s] that by blast
  have M: "parse_members n s \<noteq> Inl OutOfFuel" if "2 * length s + 1 < n" for s
    using Suc [of s] that by blast
  have 1: False if f: "2 * length s < Suc n" and a: "parse_value (Suc n) s = Inl OutOfFuel"
  proof -
    from a obtain c cs where c: "skip_ws s = c # cs"
      by (auto split: list.splits)
    from skip_ws_Cons_length [OF c] f have l: "2 * length cs + 1 < n"
      by simp
    from a c have "parse_elements n cs = Inl OutOfFuel \<or> parse_members n cs = Inl OutOfFuel"
      by (auto split: if_splits list.splits sum.splits option.splits)
    with E [OF l] M [OF l] show False by blast
  qed
  have 2: False if f: "2 * length s + 1 < Suc n" and a: "parse_elements (Suc n) s = Inl OutOfFuel"
  proof (cases "parse_value n s")
    case (Inl e)
    with a have "parse_value n s = Inl OutOfFuel" by simp
    with V [of s] f show False by simp
  next
    case (Inr p)
    then obtain v r where v: "parse_value n s = Inr (v, r)"
      by (cases p) simp
    from a v obtain c cs where c: "skip_ws r = c # cs"
      by (auto split: list.splits)
    have l: "2 * length cs + 1 < n"
      using parse_value_consumes [OF v] skip_ws_Cons_length [OF c] f by simp
    from a v c have "parse_elements n cs = Inl OutOfFuel"
      by (auto split: if_splits sum.splits)
    with E [OF l] show False by blast
  qed
  have 3: False if f: "2 * length s + 1 < Suc n" and a: "parse_members (Suc n) s = Inl OutOfFuel"
  proof -
    from a obtain q s1 where q: "skip_ws s = q # s1"
      by (auto split: list.splits)
    from a q obtain k s2 where k: "parse_chars s1 = Some (k, s2)"
      by (auto split: if_splits option.splits)
    from a q k obtain c s3 where c: "skip_ws s2 = c # s3"
      by (auto split: if_splits list.splits)
    have l3: "length s3 < length s"
      using skip_ws_Cons_length [OF q] parse_chars_consumes [OF k] skip_ws_Cons_length [OF c]
      by simp
    show False
    proof (cases "parse_value n s3")
      case (Inl e)
      with a q k c have "parse_value n s3 = Inl OutOfFuel"
        by (auto split: if_splits)
      with V [of s3] l3 f show False by simp
    next
      case (Inr p)
      then obtain v s4 where v: "parse_value n s3 = Inr (v, s4)"
        by (cases p) simp
      from a q k c v obtain d s5 where d: "skip_ws s4 = d # s5"
        by (auto split: if_splits list.splits)
      have l: "2 * length s5 + 1 < n"
        using parse_value_consumes [OF v] skip_ws_Cons_length [OF d] l3 f by simp
      from a q k c v d have "parse_members n s5 = Inl OutOfFuel"
        by (auto split: if_splits sum.splits)
      with M [OF l] show False by blast
    qed
  qed
  from 1 2 3 show ?case by blast
qed

lemma JSON_parse_never_OutOfFuel: "JSON_parse s \<noteq> Inl OutOfFuel"
proof -
  have "parse_value (2 * length s + 1) s \<noteq> Inl OutOfFuel"
    using parse_fuel [of s "2 * length s + 1"] by simp
  then show ?thesis
    by (auto simp: JSON_parse_def split: sum.splits)
qed

lemma JSON_parse_Inl: "JSON_parse s = Inl e \<Longrightarrow> e = SyntaxError"
  using JSON_parse_never_OutOfFuel [of s] by (cases e) auto

section \<open>Loading what was stored\<close>

lemma as_Todo_value_of_Todo: "as_Todo (value_of_Todo t) = Some t"
  by (simp add: as_Todo_def value_of_Todo_def get_prop_def ascii_def)

lemma as_Todos_value_of_Todos: "as_Todos (value_of_Todos ts) = Some ts"
  by (induction ts) (simp_all add: as_Todos_def value_of_Todos_def as_Todo_value_of_Todo)

lemma JSON_stringify_nonempty: "JSON_stringify ts \<noteq> []"
  by (simp add: JSON_stringify_def ascii_def)

lemma loadTodos_stringify: "loadTodos (Some (JSON_stringify ts)) = (value_of_Todos ts, [])"
  by (simp add: loadTodos_def JSON_stringify_nonempty JSON_parse_stringify)

lemma JSON_parse_empty: "JSON_parse [] = Inl SyntaxError"
  by (simp add: JSON_parse_def skip_ws_def)

lemma JSON_parse_null: "JSON_parse (ascii ''null'') = Inr JNull"
  by code_simp

section \<open>Saving and loading again (C4)\<close>

text \<open>
  C4. For every collection, the text \<^verbatim>\<open>saveTodos\<close> stores parses back to the array of
  the same tasks: \<^verbatim>\<open>loadTodos\<close> on the item just stored returns the value of that
  collection and logs nothing, and read as a \<^verbatim>\<open>Todo[]\<close> it is the same sequence of
  tasks, with the same ids, titles and flags in the same order.
\<close>

theorem save_load_roundtrip:
  "JSON_parse (JSON_stringify ts) = Inr (value_of_Todos ts) \<and>
   loadTodos (localStorage (saveTodos st)) = (value_of_Todos (todos st), []) \<and>
   as_Todos (fst (loadTodos (localStorage (saveTodos st)))) = Some (todos st)"
  by (simp add: saveTodos_def loadTodos_stringify as_Todos_value_of_Todos JSON_parse_stringify)

theorem save_load_roundtrip_witness:
  \<open>localStorage (saveTodos st0) =
     Some (ascii ''[{"id":"a1","title":"Buy milk","completed":false},{"id":"b2","title":"Walk dog","completed":true}]'') \<and>
   as_Todos (fst (loadTodos (localStorage (saveTodos st0)))) =
     Some [\<lparr>id' = ascii ''a1'', title = ascii ''Buy milk'', completed = False\<rparr>,
           \<lparr>id' = ascii ''b2'', title = ascii ''Walk dog'', completed = True\<rparr>]\<close>
proof -
  have s: \<open>localStorage (saveTodos st0) =
     Some (ascii ''[{"id":"a1","title":"Buy milk","completed":false},{"id":"b2","title":"Walk dog","completed":true}]'')\<close>
    by (simp add: saveTodos_def JSON_stringify_def st0_def stringify_Todo_def QuoteJSONString_def
        quote_unit_def is_lead_def is_trail_def ascii_def)
  have r: "as_Todos (fst (loadTodos (localStorage (saveTodos st0)))) = Some (todos st0)"
    using save_load_roundtrip [of "todos st0" st0] by blast
  show ?thesis
    using s r [unfolded todos_st0] by (rule conjI)
qed

section \<open>Loading any stored value (C3)\<close>

text \<open>
  The paths of \<^verbatim>\<open>loadTodos\<close> that end in a collection: an absent key and the empty
  string give the empty collection, a text that \<^verbatim>\<open>JSON.parse\<close> rejects is logged and
  gives the empty collection, and the text of a well-formed collection gives that
  collection.
\<close>

lemma loadTodos_fallbacks:
  "(raw = None \<or> raw = Some [] \<longrightarrow> loadTodos raw = (JArray [], [])) \<and>
   (raw = Some r \<and> r \<noteq> [] \<and> JSON_parse r = Inl e \<longrightarrow>
      e = SyntaxError \<and> loadTodos raw = (JArray [], [SyntaxError])) \<and>
   (stored_well_formed raw \<longrightarrow>
      (\<exists>r v. raw = Some r \<and> JSON_parse r = Inr v \<and> as_Todos v \<noteq> None \<and>
             loadTodos raw = (v, [])))"
proof -
  have 1: "loadTodos raw = (JArray [], [])" if "raw = None \<or> raw = Some []"
    using that by (auto simp: loadTodos_def)
  have 2: "e = SyntaxError \<and> loadTodos raw = (JArray [], [SyntaxError])"
    if "raw = Some r" "r \<noteq> []" "JSON_parse r = Inl e"
    using that JSON_parse_Inl [of r e] by (simp add: loadTodos_def)
  have 3: "\<exists>r v. raw = Some r \<and> JSON_parse r = Inr v \<and> as_Todos v \<noteq> None \<and>
             loadTodos raw = (v, [])" if w: "stored_well_formed raw"
  proof -
    from w obtain r v where r: "raw = Some r" "JSON_parse r = Inr v" "as_Todos v \<noteq> None"
      by (auto simp: stored_well_formed_def split: option.splits sum.splits)
    with JSON_parse_empty have "r \<noteq> []" by auto
    with r show ?thesis by (simp add: loadTodos_def)
  qed
  from 1 2 3 show ?thesis by blast
qed

text \<open>
  C3. \<^verbatim>\<open>loadTodos\<close> is declared to return a \<^verbatim>\<open>Todo[]\<close> and falls back to the empty
  collection on its other paths, but a stored text that parses to something other than
  a collection is handed on as it is. The stored text \<open>null\<close> is valid JSON and not a
  well-formed collection; \<^verbatim>\<open>loadTodos\<close> returns the value null for it and logs
  nothing, where the claim has the empty collection.
\<close>

theorem loadTodos_null_returns_null:
  "\<not> stored_well_formed (Some (ascii ''null'')) \<and>
   JSON_parse (ascii ''null'') = Inr JNull \<and>
   loadTodos (Some (ascii ''null'')) = (JNull, []) \<and>
   fst (loadTodos (Some (ascii ''null''))) \<noteq> JArray []"
proof -
  have n: "ascii ''null'' \<noteq> []"
    by (simp add: ascii_def)
  have w: "\<not> stored_well_formed (Some (ascii ''null''))"
    by (simp add: stored_well_formed_def JSON_parse_null as_Todos_def)
  have l: "loadTodos (Some (ascii ''null'')) = (JNull, [])"
    by (simp add: loadTodos_def n JSON_parse_null)
  show ?thesis using w l JSON_parse_null by simp
qed

end
